theory Spec2Isabelle
  imports Main "HOL-Library.Char_ord" "HOL-Library.List_Lexorder" "HOL-Library.Multiset"
begin

section \<open>The directives processor of gears (gears/processors.py)\<close>

text \<open>
  The processor works on byte strings (the module is written for Python 2: it starts with
  \<^verbatim>\<open>from __future__ import with_statement\<close>), so a string is a \<^typ>\<open>char list\<close>,
  the classes \<^verbatim>\<open>\s\<close> and \<^verbatim>\<open>\w\<close> are the ASCII ones and \<^verbatim>\<open>str.strip\<close> removes the six
  ASCII white-space characters. Strings are compared as Python compares them: by character
  code, lexicographically (\<open>Char_ord\<close>, \<open>List_Lexorder\<close>).
\<close>

subsection \<open>Characters\<close>

abbreviation NL :: char where "NL \<equiv> CHR 0x0A"
abbreviation CR :: char where "CR \<equiv> CHR 0x0D"
abbreviation TAB :: char where "TAB \<equiv> CHR 0x09"
abbreviation SQ :: char where "SQ \<equiv> CHR 0x27"
abbreviation DQ :: char where "DQ \<equiv> CHR 0x22"
abbreviation BSL :: char where "BSL \<equiv> CHR 0x5C"

text \<open>\<^verbatim>\<open>\s\<close> and \<^verbatim>\<open>str.isspace\<close>: space, \<^verbatim>\<open>\t \n \r \v \f\<close>.\<close>

definition isspace :: "char \<Rightarrow> bool" where
  "isspace c = (c \<in> set [CHR '' '', TAB, NL, CR, CHR 0x0B, CHR 0x0C])"

text \<open>\<^verbatim>\<open>\w\<close>: letters, digits and the underscore.\<close>

definition isword :: "char \<Rightarrow> bool" where
  "isword c = (c \<in> set (''abcdefghijklmnopqrstuvwxyz'' @ ''ABCDEFGHIJKLMNOPQRSTUVWXYZ''
                          @ ''0123456789_''))"

subsection \<open>Regular expressions, matched as Python's \<^verbatim>\<open>re\<close> matches them\<close>

text \<open>
  A pattern is a syntax tree; \<open>run\<close> lists the states a backtracking matcher can reach
  from a state, in the order in which it tries them: the left branch of an alternation
  first, a greedy repetition with one more iteration first, a lazy one with one less.
  The first state of the list is the match \<^verbatim>\<open>re\<close> reports. A state is the position in
  the subject, the text that is left and the groups captured so far (the latest first).
\<close>

datatype cset_item = Space | Word | Ch char

fun in_item :: "char \<Rightarrow> cset_item \<Rightarrow> bool" where
  "in_item c Space = isspace c"
| "in_item c Word = isword c"
| "in_item c (Ch d) = (c = d)"

datatype regex =
    Eps
  | Bol
  | Eol
  | Lit char
  | Dot
  | In "cset_item list"
  | NotIn "cset_item list"
  | Seq regex regex
  | Alt regex regex
  | Star regex
  | LazyStar regex
  | Group nat regex

type_synonym caps = "(nat \<times> string) list"
type_synonym mstate = "nat \<times> string \<times> caps"

fun step_if :: "(char \<Rightarrow> bool) \<Rightarrow> nat \<Rightarrow> string \<Rightarrow> caps \<Rightarrow> mstate list" where
  "step_if P p [] c = []"
| "step_if P p (x # xs) c = (if P x then [(Suc p, xs, c)] else [])"

text \<open>
  \<open>Bol\<close> is \<^verbatim>\<open>^\<close> without MULTILINE (the start of the subject only), \<open>Eol\<close> is \<^verbatim>\<open>$\<close>
  (the end of the subject, or before a newline that ends it), \<open>Dot\<close> is \<^verbatim>\<open>.\<close> under
  DOTALL. A repetition goes on only after an iteration that consumed something, as the
  matcher of \<^verbatim>\<open>re\<close> does.
\<close>

fun run :: "regex \<Rightarrow> nat \<Rightarrow> string \<Rightarrow> caps \<Rightarrow> mstate list" where
  "run Eps p s c = [(p, s, c)]"
| "run Bol p s c = (if p = 0 then [(p, s, c)] else [])"
| "run Eol p s c = (if s = [] \<or> s = [NL] then [(p, s, c)] else [])"
| "run (Lit d) p s c = step_if (\<lambda>x. x = d) p s c"
| "run Dot p s c = step_if (\<lambda>x. True) p s c"
| "run (In items) p s c = step_if (\<lambda>x. list_ex (in_item x) items) p s c"
| "run (NotIn items) p s c = step_if (\<lambda>x. \<not> list_ex (in_item x) items) p s c"
| "run (Seq r1 r2) p s c = concat (map (\<lambda>(p', s', c'). run r2 p' s' c') (run r1 p s c))"
| "run (Alt r1 r2) p s c = run r1 p s c @ run r2 p s c"
| "run (Star r) p s c =
     concat (map (\<lambda>(p', s', c'). if length s' < length s then run (Star r) p' s' c'
                                  else [(p', s', c')])
                 (run r p s c)) @ [(p, s, c)]"
| "run (LazyStar r) p s c =
     (p, s, c) # concat (map (\<lambda>(p', s', c'). if length s' < length s then run (LazyStar r) p' s' c'
                                              else [(p', s', c')])
                             (run r p s c))"
| "run (Group n r) p s c =
     map (\<lambda>(p', s', c'). (p', s', (n, take (p' - p) s) # c')) (run r p s c)"

declare run.simps(10) [simp del] run.simps(11) [simp del]

abbreviation Plus :: "regex \<Rightarrow> regex" where "Plus r \<equiv> Seq r (Star r)"
abbreviation Opt :: "regex \<Rightarrow> regex" where "Opt r \<equiv> Alt r Eps"

text \<open>\<^verbatim>\<open>pattern.match(s)\<close>: the match at position 0, as (group 0, the groups), or None.\<close>

definition re_match :: "regex \<Rightarrow> string \<Rightarrow> (string \<times> caps) option" where
  "re_match re s = (case run re 0 s [] of [] \<Rightarrow> None | (p, _, c) # _ \<Rightarrow> Some (take p s, c))"

text \<open>\<^verbatim>\<open>match.group(n)\<close> for a group \<open>n \<ge> 1\<close> that took part in the match.\<close>

definition group :: "(string \<times> caps) \<Rightarrow> nat \<Rightarrow> string" where
  "group m n = (case map_of (snd m) n of None \<Rightarrow> [] | Some g \<Rightarrow> g)"

text \<open>
  The search of \<^verbatim>\<open>re\<close> from a position: the first position at or after it where the pattern
  matches, with the end of the match there.
\<close>

definition search :: "regex \<Rightarrow> string \<Rightarrow> nat \<Rightarrow> (nat \<times> nat) option" where
  "search re s start =
     (case filter (\<lambda>k. run re k (drop k s) [] \<noteq> []) [start ..< Suc (length s)] of
        [] \<Rightarrow> None
      | k # _ \<Rightarrow> (case run re k (drop k s) [] of
                    [] \<Rightarrow> None
                  | (e, _, _) # _ \<Rightarrow> Some (k, e)))"

text \<open>
  \<^verbatim>\<open>pattern.sub(repl, s)\<close> for a literal replacement: the loop of the \<^verbatim>\<open>re\<close> module. \<open>i\<close>
  is the end of the last match, \<open>n\<close> the number of matches so far; an empty match right
  after a match is not replaced, and after an empty match the search moves on by one.
\<close>

function sub_from :: "regex \<Rightarrow> string \<Rightarrow> string \<Rightarrow> nat \<Rightarrow> nat \<Rightarrow> nat \<Rightarrow> string" where
  "sub_from re repl s start i n =
     (case search re s start of
        None \<Rightarrow> drop i s
      | Some (b, e) \<Rightarrow>
          take (b - i) (drop i s)
          @ (if i = b \<and> i = e \<and> 0 < n then [] else repl)
          @ sub_from re repl s (if e = b then Suc e else e) e (Suc n))"
  by pat_completeness auto
termination
proof (relation "measure (\<lambda>(re, repl, s, start, i, n). Suc (length s) - start)")
  fix re :: regex and repl s :: string and start i n :: nat and x2 :: "nat \<times> nat" and b e :: nat
  assume found: "search re s start = Some x2" and x2: "(b, e) = x2"
  have adv: "\<And>r p t c p' t' c'. (p', t', c') \<in> set (run r p t c) \<Longrightarrow> p \<le> p'"
  proof -
    fix r p t c p' t' c'
    show "(p', t', c') \<in> set (run r p t c) \<Longrightarrow> p \<le> p'"
    proof (induction r p t c arbitrary: p' t' c' rule: run.induct)
      case (8 r1 r2 p s c)
      from "8.prems" obtain p1 s1 c1 where a: "(p1, s1, c1) \<in> set (run r1 p s c)"
        and b: "(p', t', c') \<in> set (run r2 p1 s1 c1)" by auto
      from "8.IH"(1) [OF a] "8.IH"(2) [OF a refl refl b] show ?case by simp
    next
      case (10 r p s c)
      from "10.prems" consider "p' = p"
        | p1 s1 c1 where "(p1, s1, c1) \<in> set (run r p s c)" "length s1 < length s"
            "(p', t', c') \<in> set (run (Star r) p1 s1 c1)"
        | "(p', t', c') \<in> set (run r p s c)"
        by (subst (asm) run.simps) (auto split: if_splits)
      then show ?case
      proof cases
        case 2
        from "10.IH"(1) [OF 2(1)] "10.IH"(2) [OF 2(1) refl refl 2(2) 2(3)] show ?thesis by simp
      qed (auto dest: "10.IH"(1))
    next
      case (11 r p s c)
      from "11.prems" consider "p' = p"
        | p1 s1 c1 where "(p1, s1, c1) \<in> set (run r p s c)" "length s1 < length s"
            "(p', t', c') \<in> set (run (LazyStar r) p1 s1 c1)"
        | "(p', t', c') \<in> set (run r p s c)"
        by (subst (asm) run.simps) (auto split: if_splits)
      then show ?case
      proof cases
        case 2
        from "11.IH"(1) [OF 2(1)] "11.IH"(2) [OF 2(1) refl refl 2(2) 2(3)] show ?thesis by simp
      qed (auto dest: "11.IH"(1))
    next
      case (4 d p s c) then show ?case by (cases s) (auto split: if_splits)
    next
      case (5 p s c) then show ?case by (cases s) (auto split: if_splits)
    next
      case (6 i p s c) then show ?case by (cases s) (auto split: if_splits)
    next
      case (7 i p s c) then show ?case by (cases s) (auto split: if_splits)
    qed (auto split: if_splits)
  qed
  let ?ks = "filter (\<lambda>k. run re k (drop k s) [] \<noteq> []) [start ..< Suc (length s)]"
  from found x2 obtain ks q qs where ks: "?ks = b # ks" and q: "run re b (drop b s) [] = q # qs"
    and e: "e = fst q"
    by (auto simp: search_def split: list.splits)
  from ks have "b \<in> set ?ks" by simp
  then have b: "start \<le> b" "b \<le> length s" by auto
  obtain t' c' where "q = (e, t', c')" using e by (cases q) auto
  with q have "(e, t', c') \<in> set (run re b (drop b s) [])" by simp
  from adv [OF this] have "b \<le> e" .
  with b show "((re, repl, s, if e = b then Suc e else e, e, Suc n), re, repl, s, start, i, n)
      \<in> measure (\<lambda>(re, repl, s, start, i, n). Suc (length s) - start)"
    by auto
qed simp

definition re_sub :: "regex \<Rightarrow> string \<Rightarrow> string \<Rightarrow> string" where
  "re_sub re repl s = sub_from re repl s 0 0 0"

subsection \<open>The two patterns of the class\<close>

text \<open>
  \<^verbatim>\<open>header_re = re.compile(r'^(\s*((/\*.*?\*/)|(//[^\n]*\n?)+))+', re.DOTALL)\<close>
\<close>

definition header_re :: regex where
  "header_re =
     Seq Bol
       (Plus (Group 1
          (Seq (Star (In [Space]))
             (Group 2
                (Alt (Group 3 (Seq (Lit CHR ''/'') (Seq (Lit CHR ''*'')
                                 (Seq (LazyStar Dot) (Seq (Lit CHR ''*'') (Lit CHR ''/''))))))
                     (Plus (Group 4 (Seq (Lit CHR ''/'') (Seq (Lit CHR ''/'')
                                       (Seq (Star (NotIn [Ch NL])) (Opt (Lit NL))))))))))))"

text \<open>
  \<^verbatim>\<open>directive_re = re.compile(r"""^\s*(?:\*|//|#)\s*=\s*(\w+[./'"\s\w-]*)$""")\<close>
\<close>

definition directive_re :: regex where
  "directive_re =
     Seq Bol (Seq (Star (In [Space]))
       (Seq (Alt (Lit CHR ''*'') (Alt (Seq (Lit CHR ''/'') (Lit CHR ''/'')) (Lit CHR ''#'')))
         (Seq (Star (In [Space])) (Seq (Lit CHR ''='') (Seq (Star (In [Space]))
           (Seq (Group 1 (Seq (Plus (In [Word]))
                              (Star (In [Ch CHR ''.'', Ch CHR ''/'', Ch SQ, Ch DQ, Space, Word,
                                         Ch CHR ''-'']))))
                Eol))))))"

subsection \<open>String methods\<close>

text \<open>\<^verbatim>\<open>s.strip()\<close>\<close>

definition strip :: "string \<Rightarrow> string" where
  "strip s = rev (dropWhile isspace (rev (dropWhile isspace s)))"

text \<open>\<^verbatim>\<open>sep.join(xs)\<close>\<close>

fun join :: "string \<Rightarrow> string list \<Rightarrow> string" where
  "join sep [] = []"
| "join sep [x] = x"
| "join sep (x # y # ys) = x @ sep @ join sep (y # ys)"

text \<open>
  \<^verbatim>\<open>s.splitlines()\<close> of a byte string: a line ends at \<^verbatim>\<open>\n\<close>, \<^verbatim>\<open>\r\<close> or \<^verbatim>\<open>\r\n\<close>, the
  terminators are dropped, and there is no empty last line after a final terminator.
  \<open>cur\<close> is the line read so far.
\<close>

fun splitlines_from :: "string \<Rightarrow> string \<Rightarrow> string list" where
  "splitlines_from cur [] = (if cur = [] then [] else [cur])"
| "splitlines_from cur (x # xs) =
     (if x = NL then cur # splitlines_from [] xs
      else if x = CR then
        (case xs of
           [] \<Rightarrow> [cur]
         | y # ys \<Rightarrow> if y = NL then cur # splitlines_from [] ys
                     else cur # splitlines_from [] xs)
      else splitlines_from (cur @ [x]) xs)"

definition splitlines :: "string \<Rightarrow> string list" where
  "splitlines s = splitlines_from [] s"

text \<open>\<^verbatim>\<open>s.split('/')\<close>\<close>

fun split_from :: "char \<Rightarrow> string \<Rightarrow> string \<Rightarrow> string list" where
  "split_from d cur [] = [cur]"
| "split_from d cur (x # xs) =
     (if x = d then cur # split_from d [] xs else split_from d (cur @ [x]) xs)"

definition split_on :: "char \<Rightarrow> string \<Rightarrow> string list" where
  "split_on d s = split_from d [] s"

subsection \<open>\<^verbatim>\<open>shlex.split\<close>\<close>

text \<open>
  \<^verbatim>\<open>shlex.split(s)\<close> runs the lexer of the standard library in POSIX mode with
  \<^verbatim>\<open>whitespace_split\<close> set and no comment characters. \<open>read_token\<close> is its state machine:
  the lexer's state is \<^verbatim>\<open>None\<close> (past the end), \<^verbatim>\<open>' '\<close> (between words), \<^verbatim>\<open>'a'\<close> (in a
  word), a quote character (in a quoted part) or the escape character. The word
  characters need no branch of their own: with \<^verbatim>\<open>whitespace_split\<close> every character that
  is no white space, quote or escape is added to the word, as they are.
\<close>

datatype error = InvalidDirective | FileNotFound | ValueError | IndexError | OtherError

datatype lexstate = LNone | LSpace | LWord | LQuote char | LEscape char

definition shlex_whitespace :: string where
  "shlex_whitespace = [CHR '' '', TAB, CR, NL]"

definition shlex_quotes :: string where
  "shlex_quotes = [SQ, DQ]"

definition shlex_escape :: string where
  "shlex_escape = [BSL]"

definition shlex_escapedquotes :: string where
  "shlex_escapedquotes = [DQ]"

text \<open>
  \<open>read_token st tok quoted esc s\<close> reads one token from the input \<open>s\<close>: \<open>tok\<close> is
  \<^verbatim>\<open>self.token\<close>, \<open>esc\<close> is \<^verbatim>\<open>escapedstate\<close>. It returns the token (None for the end of the
  input: an empty token that was not quoted), the lexer's state and the input left, or
  the \<^verbatim>\<open>ValueError\<close> of an open quotation or a lone escape character.
\<close>

fun emit :: "string \<Rightarrow> bool \<Rightarrow> lexstate \<Rightarrow> string \<Rightarrow> error + (string option \<times> lexstate \<times> string)" where
  "emit tok quoted st s = Inr (if \<not> quoted \<and> tok = [] then None else Some tok, st, s)"

fun read_token :: "lexstate \<Rightarrow> string \<Rightarrow> bool \<Rightarrow> lexstate \<Rightarrow> string
                   \<Rightarrow> error + (string option \<times> lexstate \<times> string)" where
  "read_token LNone tok quoted esc s = emit [] quoted LNone (tl s)"
| "read_token LSpace tok quoted esc [] = emit tok quoted LNone []"
| "read_token LSpace tok quoted esc (x # xs) =
     (if x \<in> set shlex_whitespace then
        (if tok \<noteq> [] \<or> quoted then emit tok quoted LSpace xs
         else read_token LSpace tok quoted esc xs)
      else if x \<in> set shlex_escape then read_token (LEscape x) tok quoted LWord xs
      else if x \<in> set shlex_quotes then read_token (LQuote x) tok quoted esc xs
      else read_token LWord [x] quoted esc xs)"
| "read_token (LQuote q) tok quoted esc [] = Inl ValueError"
| "read_token (LQuote q) tok quoted esc (x # xs) =
     (if x = q then read_token LWord tok True esc xs
      else if x \<in> set shlex_escape \<and> q \<in> set shlex_escapedquotes
        then read_token (LEscape x) tok True (LQuote q) xs
      else read_token (LQuote q) (tok @ [x]) True esc xs)"
| "read_token (LEscape e) tok quoted esc [] = Inl ValueError"
| "read_token (LEscape e) tok quoted esc (x # xs) =
     (case esc of
        LQuote q \<Rightarrow>
          read_token esc ((if x \<noteq> e \<and> x \<noteq> q then tok @ [e] else tok) @ [x]) quoted esc xs
      | _ \<Rightarrow> read_token esc (tok @ [x]) quoted esc xs)"
| "read_token LWord tok quoted esc [] = emit tok quoted LNone []"
| "read_token LWord tok quoted esc (x # xs) =
     (if x \<in> set shlex_whitespace then
        (if tok \<noteq> [] \<or> quoted then emit tok quoted LSpace xs
         else read_token LSpace tok quoted esc xs)
      else if x \<in> set shlex_quotes then read_token (LQuote x) tok quoted esc xs
      else if x \<in> set shlex_escape then read_token (LEscape x) tok quoted LWord xs
      else read_token LWord (tok @ [x]) quoted esc xs)"

text \<open>
  \<^verbatim>\<open>list(lex)\<close>: tokens are read until the lexer returns None. Every token read takes
  at least one character of the input, which is why the loop ends.
\<close>

function tokens :: "lexstate \<Rightarrow> string \<Rightarrow> error + string list" where
  "tokens st s =
     (case read_token st [] False LSpace s of
        Inl e \<Rightarrow> Inl e
      | Inr (None, st', s') \<Rightarrow> Inr []
      | Inr (Some t, st', s') \<Rightarrow>
          (case tokens st' s' of Inl e \<Rightarrow> Inl e | Inr ts \<Rightarrow> Inr (t # ts)))"
  by pat_completeness auto
termination
proof (relation "measure (\<lambda>(st, s). length s)")
  fix st st' :: lexstate and s s' t :: string
    and x :: "string option \<times> lexstate \<times> string" and y :: "lexstate \<times> string" and o' :: "string option"
  assume rd: "read_token st [] False LSpace s = Inr x" and x: "(o', y) = x" and y: "(st', s') = y"
    and o': "o' = Some t"
  have shorter: "\<And>st tok quoted esc s r st' s'.
      read_token st tok quoted esc s = Inr (r, st', s') \<Longrightarrow>
      length s' < length s \<or> (s = [] \<and> s' = [] \<and> (r = None \<or> tok \<noteq> [] \<or> quoted))"
  proof -
    fix st tok quoted esc s r st' s'
    show "read_token st tok quoted esc s = Inr (r, st', s') \<Longrightarrow>
      length s' < length s \<or> (s = [] \<and> s' = [] \<and> (r = None \<or> tok \<noteq> [] \<or> quoted))"
    proof (induction st tok quoted esc s arbitrary: r st' s' rule: read_token.induct)
      case (1 tok quoted esc s)
      then show ?case by (cases s) (auto split: if_splits)
    next
      case (3 tok quoted esc x xs)
      then show ?case by (fastforce split: if_splits)
    next
      case (5 q tok quoted esc x xs)
      then show ?case by (fastforce split: if_splits)
    next
      case (7 e tok quoted esc x xs)
      then show ?case by (cases esc) (fastforce split: if_splits)+
    next
      case (9 tok quoted esc x xs)
      then show ?case by (fastforce split: if_splits)
    qed (auto split: if_splits)
  qed
  from rd x y o' have "read_token st [] False LSpace s = Inr (Some t, st', s')" by simp
  from shorter [OF this] show "((st', s'), st, s) \<in> measure (\<lambda>(st, s). length s)" by auto
qed simp

definition shlex_split :: "string \<Rightarrow> error + string list" where
  "shlex_split s = tokens LSpace s"

subsection \<open>\<^verbatim>\<open>os.path\<close> (posixpath)\<close>

text \<open>
  The functions of \<^verbatim>\<open>os.path\<close> on a POSIX system, where the separator is the slash.
  \<^verbatim>\<open>p.rfind('/') + 1\<close> is the index after the last slash, 0 when there is none.
\<close>

definition after_last_slash :: "string \<Rightarrow> nat" where
  "after_last_slash p = length p - length (takeWhile (\<lambda>c. c \<noteq> CHR ''/'') (rev p))"

text \<open>\<^verbatim>\<open>head.rstrip('/')\<close>\<close>

definition rstrip_slash :: "string \<Rightarrow> string" where
  "rstrip_slash s = rev (dropWhile (\<lambda>c. c = CHR ''/'') (rev s))"

definition dirname :: "string \<Rightarrow> string" where
  "dirname p =
     (let head = take (after_last_slash p) p
      in if head \<noteq> [] \<and> head \<noteq> replicate (length head) CHR ''/'' then rstrip_slash head
         else head)"

fun startswith_slash :: "string \<Rightarrow> bool" where
  "startswith_slash [] = False"
| "startswith_slash (c # cs) = (c = CHR ''/'')"

definition endswith_slash :: "string \<Rightarrow> bool" where
  "endswith_slash s = (s \<noteq> [] \<and> last s = CHR ''/'')"

text \<open>\<^verbatim>\<open>os.path.join(a, b)\<close>\<close>

definition path_join :: "string \<Rightarrow> string \<Rightarrow> string" where
  "path_join a b =
     (if startswith_slash b then b
      else if a = [] \<or> endswith_slash a then a @ b
      else a @ ''/'' @ b)"

text \<open>
  \<^verbatim>\<open>os.path.normpath\<close>: one step of its loop over the components, then the function.
  \<open>initial_slashes\<close> is 0, 1 or 2 (two leading slashes are kept, three or more are one).
\<close>

definition norm_step :: "nat \<Rightarrow> string list \<Rightarrow> string \<Rightarrow> string list" where
  "norm_step initial_slashes new_comps cmp =
     (if cmp = [] \<or> cmp = ''.'' then new_comps
      else if cmp \<noteq> ''..'' \<or> (initial_slashes = 0 \<and> new_comps = [])
              \<or> (new_comps \<noteq> [] \<and> last new_comps = ''..'')
        then new_comps @ [cmp]
      else if new_comps \<noteq> [] then butlast new_comps
      else new_comps)"

definition normpath :: "string \<Rightarrow> string" where
  "normpath p =
     (if p = [] then ''.''
      else
        let initial_slashes =
              (if startswith_slash p then
                 (if startswith_slash (tl p) \<and> \<not> startswith_slash (tl (tl p)) then 2 else 1)
               else 0);
            comps = foldl (norm_step initial_slashes) [] (split_on CHR ''/'' p);
            q = replicate initial_slashes CHR ''/'' @ join ''/'' comps
        in if q = [] then ''.'' else q)"

subsection \<open>The collaborators\<close>

text \<open>
  \<^verbatim>\<open>AssetAttributes\<close>, the environment and \<^verbatim>\<open>Asset\<close> are defined in other modules; the
  processor reads three attributes of an \<^verbatim>\<open>AssetAttributes\<close> and calls the environment and
  the asset through three operations, which are parameters here. Each may raise. They are
  functions: a call answers the same whenever it is made, and changes nothing the
  processor reads.
  \<^item> \<open>env_find p\<close> is \<^verbatim>\<open>environment.find(AssetAttributes(environment, p), True)\<close>;
  \<^item> \<open>env_list p suffix\<close> is \<^verbatim>\<open>environment.list(p, suffix)\<close>, as the list it yields;
  \<^item> \<open>asset_str attrs abs\<close> is \<^verbatim>\<open>str(Asset(attrs, abs, context, calls))\<close>, the processed
    source of the asset, for the context and the calls the processor was made with.
\<close>

record asset_attributes =
  path :: string
  extensions :: "string list"
  suffix :: "string list"

type_synonym located = "asset_attributes \<times> string"

record environment =
  env_find :: "string \<Rightarrow> error + located"
  env_list :: "string \<Rightarrow> string list \<Rightarrow> error + located list"
  asset_str :: "asset_attributes \<Rightarrow> string \<Rightarrow> error + string"

subsection \<open>\<^verbatim>\<open>DirectivesProcessor\<close>\<close>

record processor =
  attributes :: asset_attributes
  env :: environment
  source :: string
  source_header :: string
  source_body :: string

text \<open>\<^verbatim>\<open>__init__\<close>: the split of the source into header and body.\<close>

definition init :: "asset_attributes \<Rightarrow> environment \<Rightarrow> string \<Rightarrow> processor" where
  "init attrs e src =
     (case re_match header_re src of
        Some m \<Rightarrow> \<lparr>attributes = attrs, env = e, source = src,
                    source_header = fst m, source_body = re_sub header_re [] src\<rparr>
      | None \<Rightarrow> \<lparr>attributes = attrs, env = e, source = src,
                  source_header = [], source_body = src\<rparr>)"

definition get_relative_path :: "processor \<Rightarrow> string \<Rightarrow> bool \<Rightarrow> string" where
  "get_relative_path self require_path is_directory =
     (let require_path = path_join (dirname (path (attributes self))) require_path;
          require_path = normpath require_path
      in if is_directory then require_path
         else require_path @ concat (extensions (attributes self)))"

definition find :: "processor \<Rightarrow> string \<Rightarrow> error + located" where
  "find self require_path = env_find (env self) (get_relative_path self require_path False)"

text \<open>\<^verbatim>\<open>str(self.get_asset(asset_attributes, absolute_path))\<close>\<close>

definition get_asset_str :: "processor \<Rightarrow> asset_attributes \<Rightarrow> string \<Rightarrow> error + string" where
  "get_asset_str self asset_attrs absolute_path = asset_str (env self) asset_attrs absolute_path"

text \<open>
  A directive handler appends to the list \<^verbatim>\<open>body\<close> it is given and may raise: it returns
  the exception raised, if any, with the list as it has left it.
\<close>

type_synonym outcome = "error option \<times> string list"

definition process_require_directive :: "processor \<Rightarrow> string list \<Rightarrow> nat \<Rightarrow> string list \<Rightarrow> outcome" where
  "process_require_directive self args lineno body =
     (if length args \<noteq> 1 then (Some InvalidDirective, body)
      else case find self (hd args) of
             Inl FileNotFound \<Rightarrow> (Some InvalidDirective, body)
           | Inl e \<Rightarrow> (Some e, body)
           | Inr (asset_attrs, absolute_path) \<Rightarrow>
               (case get_asset_str self asset_attrs absolute_path of
                  Inl e \<Rightarrow> (Some e, body)
                | Inr text \<Rightarrow> (None, body @ [strip text])))"

definition process_require_self_directive :: "processor \<Rightarrow> string list \<Rightarrow> nat \<Rightarrow> string list \<Rightarrow> outcome" where
  "process_require_self_directive self args lineno body =
     (if args \<noteq> [] then (Some InvalidDirective, body)
      else (None, body @ [strip (source_body self)]))"

text \<open>The loop of \<^verbatim>\<open>process_require_directory_directive\<close> over the sorted list.\<close>

fun append_assets :: "processor \<Rightarrow> located list \<Rightarrow> string list \<Rightarrow> outcome" where
  "append_assets self [] body = (None, body)"
| "append_assets self ((asset_attrs, absolute_path) # rest) body =
     (case get_asset_str self asset_attrs absolute_path of
        Inl e \<Rightarrow> (Some e, body)
      | Inr text \<Rightarrow> append_assets self rest (body @ [strip text]))"

definition process_require_directory_directive :: "processor \<Rightarrow> string list \<Rightarrow> nat \<Rightarrow> string list \<Rightarrow> outcome" where
  "process_require_directory_directive self args lineno body =
     (if length args \<noteq> 1 then (Some InvalidDirective, body)
      else let p = get_relative_path self (hd args) True
           in case env_list (env self) p (suffix (attributes self)) of
                Inl e \<Rightarrow> (Some e, body)
              | Inr list \<Rightarrow> append_assets self (sort_key (\<lambda>x. path (fst x)) list) body)"

text \<open>
  \<^verbatim>\<open>parse_directives\<close> is a generator: it yields (line number, arguments) for the lines of
  the header that match, and it raises where \<^verbatim>\<open>shlex.split\<close> raises. The model is the list
  of what it yields before it ends, and the exception that ends it, if any.
\<close>

fun parse_lines :: "(nat \<times> string) list \<Rightarrow> (nat \<times> string list) list \<times> error option" where
  "parse_lines [] = ([], None)"
| "parse_lines ((lineno, line) # rest) =
     (case re_match directive_re line of
        None \<Rightarrow> parse_lines rest
      | Some m \<Rightarrow>
          (case shlex_split (group m 1) of
             Inl e \<Rightarrow> ([], Some e)
           | Inr args \<Rightarrow> (case parse_lines rest of (ds, exc) \<Rightarrow> ((lineno, args) # ds, exc))))"

definition parse_directives :: "string \<Rightarrow> (nat \<times> string list) list \<times> error option" where
  "parse_directives header = parse_lines (enumerate 0 (splitlines header))"

text \<open>
  The body of the \<^verbatim>\<open>try\<close> in \<^verbatim>\<open>process_directives\<close> for one directive: it returns the
  exception raised, the list \<^verbatim>\<open>body\<close> and the flag \<^verbatim>\<open>has_require_self\<close>. Reading
  \<^verbatim>\<open>args[0]\<close> of an empty list raises \<^verbatim>\<open>IndexError\<close>.
\<close>

definition dispatch :: "processor \<Rightarrow> nat \<Rightarrow> string list \<Rightarrow> string list \<Rightarrow> bool
                        \<Rightarrow> error option \<times> string list \<times> bool" where
  "dispatch self lineno args body has_require_self =
     (case args of
        [] \<Rightarrow> (Some IndexError, body, has_require_self)
      | name # rest \<Rightarrow>
          if name = ''require'' then
            (case process_require_directive self rest lineno body of
               (exc, body') \<Rightarrow> (exc, body', has_require_self))
          else if name = ''require_directory'' then
            (case process_require_directory_directive self rest lineno body of
               (exc, body') \<Rightarrow> (exc, body', has_require_self))
          else if name = ''require_self'' then
            (case process_require_self_directive self rest lineno body of
               (None, body') \<Rightarrow> (None, body', True)
             | (Some e, body') \<Rightarrow> (Some e, body', has_require_self))
          else (Some InvalidDirective, body, has_require_self))"

text \<open>
  The \<^verbatim>\<open>for\<close> loop of \<^verbatim>\<open>process_directives\<close> over what the generator yields:
  \<^verbatim>\<open>InvalidDirective\<close> is caught and the loop goes on, any other exception leaves it.
\<close>

fun directives_loop :: "processor \<Rightarrow> (nat \<times> string list) list \<Rightarrow> string list \<Rightarrow> bool
                        \<Rightarrow> error + (string list \<times> bool)" where
  "directives_loop self [] body has_require_self = Inr (body, has_require_self)"
| "directives_loop self ((lineno, args) # rest) body has_require_self =
     (case dispatch self lineno args body has_require_self of
        (None, body', has') \<Rightarrow> directives_loop self rest body' has'
      | (Some InvalidDirective, body', has') \<Rightarrow> directives_loop self rest body' has'
      | (Some e, body', has') \<Rightarrow> Inl e)"

definition process_directives :: "processor \<Rightarrow> error + string" where
  "process_directives self =
     (case parse_directives (source_header self) of
        (ds, exc) \<Rightarrow>
          (case directives_loop self ds [] False of
             Inl e \<Rightarrow> Inl e
           | Inr (body, has_require_self) \<Rightarrow>
               (case exc of
                  Some e \<Rightarrow> Inl e
                | None \<Rightarrow>
                    let body = (if \<not> has_require_self then body @ [strip (source_body self)]
                                else body)
                    in Inr (strip (join [NL, NL] body)))))"

definition process :: "processor \<Rightarrow> error + string" where
  "process self =
     (if source_header self = [] then Inr (strip (source_body self) @ [NL])
      else case process_directives self of
             Inl e \<Rightarrow> Inl e
           | Inr src \<Rightarrow> Inr (src @ [NL]))"

subsection \<open>Sample collaborators, for evaluations at concrete inputs\<close>

text \<open>
  The asset \<^verbatim>\<open>js/app/main.js\<close> in an environment that knows \<^verbatim>\<open>js/lib/a.js\<close> and lists three
  files, out of order, in every directory; an asset renders as its path in angle brackets.
\<close>

definition sample_attrs :: asset_attributes where
  "sample_attrs = \<lparr>path = ''js/app/main.js'', extensions = [''.js''], suffix = [''.js'']\<rparr>"

definition sample_env :: environment where
  "sample_env =
     \<lparr>env_find = (\<lambda>p. if p = ''js/lib/a.js''
                        then Inr (\<lparr>path = p, extensions = [''.js''], suffix = [''.js'']\<rparr>, ''/abs/'' @ p)
                        else Inl FileNotFound),
      env_list = (\<lambda>p s. Inr (map (\<lambda>n. (\<lparr>path = p @ ''/'' @ n, extensions = s, suffix = s\<rparr>,
                                           ''/abs/'' @ p @ ''/'' @ n))
                                 [''b.js'', ''a.js'', ''c.js''])),
      asset_str = (\<lambda>a p. Inr (''<'' @ path a @ ''>'' @ [NL]))\<rparr>"

text \<open>
  A source with a block comment of four directives, and the processor \<^verbatim>\<open>__init__\<close> makes of
  it: the header is the comment, the body is the rest.
\<close>

definition sample_header :: string where
  "sample_header = ''/*'' @ [NL] @ ''*= require ../lib/a'' @ [NL] @ ''*= require nope'' @ [NL]
     @ ''*= require_self'' @ [NL] @ ''*= require_directory sub'' @ [NL] @ ''*/''"

definition sample_source :: string where
  "sample_source = sample_header @ [NL] @ ''body();'' @ [NL]"

definition sample_processor :: processor where
  "sample_processor =
     \<lparr>attributes = sample_attrs, env = sample_env, source = sample_source,
      source_header = sample_header, source_body = [NL] @ ''body();'' @ [NL]\<rparr>"

definition sample_directives :: "(nat \<times> string list) list" where
  "sample_directives =
     [(1, [''require'', ''../lib/a'']), (2, [''require'', ''nope'']), (3, [''require_self'']),
      (4, [''require_directory'', ''sub''])]"

section \<open>Properties\<close>

subsection \<open>The header pattern matches at position 0 only\<close>

lemma run_Seq_Bol: "0 < k \<Longrightarrow> run (Seq Bol r) k t c = []"
  by simp

lemma header_re_anchored: "0 < k \<Longrightarrow> run header_re k t c = []"
  unfolding header_re_def by (rule run_Seq_Bol)

lemma search_header_from_pos: "0 < start \<Longrightarrow> search header_re s start = None"
proof -
  assume "0 < start"
  have "run header_re k (drop k s) [] = []" if "k \<in> set [start ..< Suc (length s)]" for k
  proof -
    from that \<open>0 < start\<close> have "0 < k" by (simp del: upt_Suc)
    then show ?thesis by (rule header_re_anchored)
  qed
  then have "filter (\<lambda>k. run header_re k (drop k s) [] \<noteq> []) [start ..< Suc (length s)] = []"
    unfolding filter_empty_conv by blast
  then show ?thesis by (simp add: search_def del: upt_Suc)
qed

lemma search_header_0:
  assumes "run header_re 0 s [] = (p, t, c) # qs"
  shows "search header_re s 0 = Some (0, p)"
proof -
  have "[0 ..< Suc (length s)] = 0 # [Suc 0 ..< Suc (length s)]"
    by (rule upt_conv_Cons) simp
  then have "filter (\<lambda>k. run header_re k (drop k s) [] \<noteq> []) [0 ..< Suc (length s)]
      = 0 # filter (\<lambda>k. run header_re k (drop k s) [] \<noteq> []) [Suc 0 ..< Suc (length s)]"
    using assms by (simp del: upt_Suc)
  then show ?thesis using assms by (simp add: search_def del: upt_Suc)
qed

lemma re_sub_header:
  assumes "run header_re 0 s [] = (p, t, c) # qs"
  shows "re_sub header_re [] s = drop p s"
proof -
  have "sub_from header_re [] s 0 0 0 = sub_from header_re [] s (if p = 0 then Suc p else p) p (Suc 0)"
    by (subst sub_from.simps) (simp add: search_header_0 [OF assms])
  also have "\<dots> = drop p s"
    by (subst sub_from.simps) (simp add: search_header_from_pos)
  finally show ?thesis by (simp add: re_sub_def)
qed

text \<open>
  C5. The split made at construction is total and lossless: every source text gets one
  header (empty when the pattern does not match) and one body, and the header followed by
  the body is the source text.
\<close>
theorem header_body_split_total:
  "source_header (init attrs e src) @ source_body (init attrs e src) = src"
proof (cases "run header_re 0 src []")
  case Nil
  then show ?thesis by (simp add: init_def re_match_def)
next
  case (Cons q qs)
  obtain p t c where q: "q = (p, t, c)" by (cases q) auto
  with Cons have r: "run header_re 0 src [] = (p, t, c) # qs" by simp
  then show ?thesis by (simp add: init_def re_match_def re_sub_header [OF r])
qed




subsection \<open>Stripping, and headers without directives\<close>

lemma rev_suffix_hd:
  assumes "B \<noteq> []" and "rev A = T @ B"
  shows "A \<noteq> [] \<and> hd (rev B) = hd A"
proof -
  from assms(2) have "A = rev B @ rev T" by (metis rev_append rev_rev_ident)
  with assms(1) show ?thesis by (cases "rev B") auto
qed

lemma dropWhile_fixed: "xs = [] \<or> \<not> P (hd xs) \<Longrightarrow> dropWhile P xs = xs"
  by (cases xs) auto

lemma strip_no_leading_space: "dropWhile isspace (strip s) = strip s"
proof -
  define A where "A = dropWhile isspace s"
  define B where "B = dropWhile isspace (rev A)"
  have strip: "strip s = rev B" by (simp add: strip_def A_def B_def)
  have "rev B = [] \<or> \<not> isspace (hd (rev B))"
  proof (cases "B = []")
    case False
    have "rev A = takeWhile isspace (rev A) @ B" by (simp add: B_def)
    from rev_suffix_hd [OF False this] have A: "A \<noteq> []" and hd: "hd (rev B) = hd A" by simp_all
    from A have "\<not> isspace (hd A)" unfolding A_def by (rule hd_dropWhile)
    with hd show ?thesis by simp
  qed simp
  then have "dropWhile isspace (rev B) = rev B" by (rule dropWhile_fixed)
  with strip show ?thesis by simp
qed

lemma strip_strip: "strip (strip s) = strip s"
proof -
  have "strip (strip s) = rev (dropWhile isspace (rev (strip s)))"
    unfolding strip_def [of "strip s"] by (simp only: strip_no_leading_space)
  also have "\<dots> = strip s" by (simp add: strip_def)
  finally show ?thesis .
qed

lemma strip_no_trailing_space: "strip s = [] \<or> \<not> isspace (last (strip s))"
proof (cases "strip s = []")
  case False
  let ?B = "dropWhile isspace (rev (dropWhile isspace s))"
  from False have B: "?B \<noteq> []" by (simp add: strip_def)
  then have "\<not> isspace (hd ?B)" by (rule hd_dropWhile)
  moreover from B have "last (rev ?B) = hd ?B" by (simp add: last_rev)
  ultimately show ?thesis by (simp add: strip_def)
qed simp

lemma parse_lines_no_match:
  "\<forall>line \<in> set ls. re_match directive_re line = None \<Longrightarrow> parse_lines (enumerate n ls) = ([], None)"
  by (induction ls arbitrary: n) simp_all

lemma process_directives_no_match:
  assumes "\<forall>line \<in> set (splitlines (source_header self)). re_match directive_re line = None"
  shows "process_directives self = Inr (strip (source_body self))"
  using parse_lines_no_match [OF assms, of 0]
  by (simp add: process_directives_def parse_directives_def strip_strip)

text \<open>
  C4. With an empty header \<open>process\<close> returns the stripped body and one newline, whatever
  the collaborators are (they are never asked: the result is the same in every
  environment); with a header none of whose lines matches the directive pattern it returns
  the same text.
\<close>
theorem no_directives_plain_body:
  "(source_header self = [] \<longrightarrow>
      process self = Inr (strip (source_body self) @ [NL])
      \<and> (\<forall>e'. process (self\<lparr>env := e'\<rparr>) = process self))
   \<and> ((\<forall>line \<in> set (splitlines (source_header self)). re_match directive_re line = None) \<longrightarrow>
      process self = Inr (strip (source_body self) @ [NL]))"
  by (auto simp: process_def process_directives_no_match)

subsection \<open>Sources that start with a hash comment\<close>

lemma star_space_results:
  "(p', s', c') \<in> set (run (Star (In [Space])) p s c) \<Longrightarrow>
     \<exists>k\<le>length s. s' = drop k s \<and> (\<forall>x\<in>set (take k s). isspace x)"
proof (induction s arbitrary: p c)
  case Nil
  then show ?case by (subst (asm) run.simps) simp
next
  case (Cons x xs)
  from Cons.prems consider "s' = x # xs"
    | "isspace x" "(p', s', c') \<in> set (run (Star (In [Space])) (Suc p) xs c)"
    by (subst (asm) run.simps) (auto split: if_splits)
  then show ?case
  proof cases
    case 1
    then show ?thesis by (intro exI [of _ 0]) simp
  next
    case 2
    from Cons.IH [OF 2(2)] obtain k where "k \<le> length xs" "s' = drop k xs"
      "\<forall>x\<in>set (take k xs). isspace x" by blast
    with 2(1) show ?thesis by (intro exI [of _ "Suc k"]) simp
  qed
qed

lemma comment_needs_slash:
  assumes "s = [] \<or> hd s \<noteq> CHR ''/''"
  shows "run (Group 2
                (Alt (Group 3 (Seq (Lit CHR ''/'') (Seq (Lit CHR ''*'')
                                 (Seq (LazyStar Dot) (Seq (Lit CHR ''*'') (Lit CHR ''/''))))))
                     (Plus (Group 4 (Seq (Lit CHR ''/'') (Seq (Lit CHR ''/'')
                                       (Seq (Star (NotIn [Ch NL])) (Opt (Lit NL))))))))) p s c = []"
  using assms by (cases s) simp_all

lemma take_all_space_prefix:
  assumes "\<forall>x\<in>set ws. isspace x" and "\<forall>x\<in>set (take k (ws @ CHR ''#'' # rest)). isspace x"
  shows "k \<le> length ws"
proof (rule ccontr)
  assume "\<not> k \<le> length ws"
  then have "length ws < k" by simp
  then have "(ws @ CHR ''#'' # rest) ! length ws \<in> set (take k (ws @ CHR ''#'' # rest))"
    by (metis in_set_conv_nth length_take min_less_iff_conj nth_take length_append
        less_add_same_cancel1 list.size(4) zero_less_Suc add_Suc_right)
  then have "CHR ''#'' \<in> set (take k (ws @ CHR ''#'' # rest))" by simp
  with assms(2) have "isspace CHR ''#''" by blast
  then show False by (simp add: isspace_def)
qed

lemma header_re_no_match_hash:
  assumes ws: "\<forall>x\<in>set ws. isspace x"
  shows "run header_re 0 (ws @ CHR ''#'' # rest) [] = []"
proof -
  let ?s = "ws @ CHR ''#'' # rest"
  have "run (Group 2
                (Alt (Group 3 (Seq (Lit CHR ''/'') (Seq (Lit CHR ''*'')
                                 (Seq (LazyStar Dot) (Seq (Lit CHR ''*'') (Lit CHR ''/''))))))
                     (Plus (Group 4 (Seq (Lit CHR ''/'') (Seq (Lit CHR ''/'')
                                       (Seq (Star (NotIn [Ch NL])) (Opt (Lit NL))))))))) p' s' c' = []"
    if "(p', s', c') \<in> set (run (Star (In [Space])) 0 ?s [])" for p' s' c'
  proof (rule comment_needs_slash)
    from star_space_results [OF that] obtain k where k: "k \<le> length ?s" "s' = drop k ?s"
      "\<forall>x\<in>set (take k ?s). isspace x" by blast
    from take_all_space_prefix [OF ws k(3)] have "k \<le> length ws" .
    with k(2) have s': "s' = drop k ws @ CHR ''#'' # rest" by simp
    show "s' = [] \<or> hd s' \<noteq> CHR ''/''"
    proof (cases "drop k ws")
      case Nil
      with s' show ?thesis by simp
    next
      case (Cons y ys)
      then have "y \<in> set ws" by (metis in_set_dropD list.set_intros(1))
      with ws have "isspace y" by blast
      then have "y \<noteq> CHR ''/''" by (auto simp: isspace_def)
      with Cons s' show ?thesis by simp
    qed
  qed
  then have "run (Seq (Star (In [Space])) (Group 2
                (Alt (Group 3 (Seq (Lit CHR ''/'') (Seq (Lit CHR ''*'')
                                 (Seq (LazyStar Dot) (Seq (Lit CHR ''*'') (Lit CHR ''/''))))))
                     (Plus (Group 4 (Seq (Lit CHR ''/'') (Seq (Lit CHR ''/'')
                                       (Seq (Star (NotIn [Ch NL])) (Opt (Lit NL)))))))))) 0 ?s [] = []"
    unfolding run.simps(8) by (auto simp del: run.simps(1-9) run.simps(12))
  then show ?thesis
    unfolding header_re_def run.simps(8) run.simps(2) run.simps(12) by simp
qed

text \<open>
  C10. A source whose first character after white space is \<^verbatim>\<open>#\<close> has no header: the header
  pattern wants \<^verbatim>\<open>/*\<close> or \<^verbatim>\<open>//\<close> there. The whole source is the body, no directive is
  processed, and \<open>process\<close> returns the stripped source and a newline.
\<close>
theorem hash_comments_give_no_header:
  assumes "\<forall>x\<in>set ws. isspace x"
  shows "source_header (init attrs e (ws @ CHR ''#'' # rest)) = []
     \<and> source_body (init attrs e (ws @ CHR ''#'' # rest)) = ws @ CHR ''#'' # rest
     \<and> process (init attrs e (ws @ CHR ''#'' # rest)) = Inr (strip (ws @ CHR ''#'' # rest) @ [NL])"
  using header_re_no_match_hash [OF assms, of rest]
  by (simp add: init_def re_match_def process_def)

subsection \<open>The tokens of a directive line\<close>

lemma run_pos:
  "(p', t', c') \<in> set (run r p t c) \<Longrightarrow> p \<le> p'"
proof (induction r p t c arbitrary: p' t' c' rule: run.induct)
  case (8 r1 r2 p s c)
  from "8.prems" obtain p1 s1 c1 where a: "(p1, s1, c1) \<in> set (run r1 p s c)"
    and b: "(p', t', c') \<in> set (run r2 p1 s1 c1)" by auto
  from "8.IH"(1) [OF a] "8.IH"(2) [OF a refl refl b] show ?case by simp
next
  case (10 r p s c)
  from "10.prems" consider "p' = p"
    | p1 s1 c1 where "(p1, s1, c1) \<in> set (run r p s c)" "length s1 < length s"
        "(p', t', c') \<in> set (run (Star r) p1 s1 c1)"
    | "(p', t', c') \<in> set (run r p s c)"
    by (subst (asm) run.simps) (auto split: if_splits)
  then show ?case
  proof cases
    case 2
    from "10.IH"(1) [OF 2(1)] "10.IH"(2) [OF 2(1) refl refl 2(2) 2(3)] show ?thesis by simp
  qed (auto dest: "10.IH"(1))
next
  case (11 r p s c)
  from "11.prems" consider "p' = p"
    | p1 s1 c1 where "(p1, s1, c1) \<in> set (run r p s c)" "length s1 < length s"
        "(p', t', c') \<in> set (run (LazyStar r) p1 s1 c1)"
    | "(p', t', c') \<in> set (run r p s c)"
    by (subst (asm) run.simps) (auto split: if_splits)
  then show ?case
  proof cases
    case 2
    from "11.IH"(1) [OF 2(1)] "11.IH"(2) [OF 2(1) refl refl 2(2) 2(3)] show ?thesis by simp
  qed (auto dest: "11.IH"(1))
next
  case (4 d p s c) then show ?case by (cases s) (auto split: if_splits)
next
  case (5 p s c) then show ?case by (cases s) (auto split: if_splits)
next
  case (6 i p s c) then show ?case by (cases s) (auto split: if_splits)
next
  case (7 i p s c) then show ?case by (cases s) (auto split: if_splits)
qed (auto split: if_splits)

lemma run_Seq_mem:
  "q \<in> set (run (Seq r1 r2) p s c) \<longleftrightarrow>
     (\<exists>p1 s1 c1. (p1, s1, c1) \<in> set (run r1 p s c) \<and> q \<in> set (run r2 p1 s1 c1))"
  by auto

lemma run_Group_mem:
  "q \<in> set (run (Group n r) p s c) \<longleftrightarrow>
     (\<exists>p' s' c'. (p', s', c') \<in> set (run r p s c) \<and> q = (p', s', (n, take (p' - p) s) # c'))"
  by force

lemma run_Eol_mem: "q \<in> set (run Eol p s c) \<Longrightarrow> q = (p, s, c)"
  by (simp split: if_splits)

text \<open>What holds of every result of the second pattern holds of every result of a sequence.\<close>

lemma run_Seq_all:
  assumes "\<And>p1 s1 c1. \<forall>q\<in>set (run r2 p1 s1 c1). P q"
  shows "\<forall>q\<in>set (run (Seq r1 r2) p s c). P q"
  using assms run_Seq_mem [of _ r1 r2 p s c] by blast

lemma word_group_results:
  assumes "(p', s', c') \<in> set (run (Seq (Plus (In [Word])) r) p s c)"
  shows "\<exists>x xs. take (p' - p) s = x # xs \<and> isword x"
proof -
  from assms obtain p2 s2 c2 where
    ab: "(p2, s2, c2) \<in> set (run (Plus (In [Word])) p s c)"
    and c: "(p', s', c') \<in> set (run r p2 s2 c2)"
    using run_Seq_mem [of "(p', s', c')" "Plus (In [Word])" r p s c] by blast
  from ab obtain p1 s1 c1 where
    a: "(p1, s1, c1) \<in> set (run (In [Word]) p s c)"
    and b: "(p2, s2, c2) \<in> set (run (Star (In [Word])) p1 s1 c1)"
    using run_Seq_mem [of "(p2, s2, c2)" "In [Word]" "Star (In [Word])" p s c] by blast
  from a obtain x xs where s: "s = x # xs" and x: "isword x" and p1: "p1 = Suc p"
    by (cases s) (auto split: if_splits)
  from run_pos [OF b] run_pos [OF c] p1 have "Suc p \<le> p'" by simp
  then obtain n where "p' - p = Suc n" by (metis Suc_diff_le diff_Suc_Suc)
  with s x show ?thesis by simp
qed

lemma directive_group_word:
  assumes "q \<in> set (run directive_re p s c)"
  shows "\<exists>x xs. map_of (snd (snd q)) 1 = Some (x # xs) \<and> isword x"
proof -
  let ?G = "Seq (Plus (In [Word]))
              (Star (In [Ch CHR ''.'', Ch CHR ''/'', Ch SQ, Ch DQ, Space, Word, Ch CHR ''-'']))"
  let ?P = "\<lambda>q. \<exists>x xs. map_of (snd (snd q)) (1::nat) = Some (x # xs) \<and> isword x"
  have last: "\<forall>q\<in>set (run (Seq (Group 1 ?G) Eol) p1 s1 c1). ?P q" for p1 s1 c1
  proof
    fix q assume "q \<in> set (run (Seq (Group 1 ?G) Eol) p1 s1 c1)"
    then obtain p3 s3 c3 where g1: "(p3, s3, c3) \<in> set (run (Group 1 ?G) p1 s1 c1)"
      and e: "q \<in> set (run Eol p3 s3 c3)"
      using run_Seq_mem [of q "Group 1 ?G" Eol p1 s1 c1] by blast
    from g1 obtain p2 s2 c2 where g: "(p2, s2, c2) \<in> set (run ?G p1 s1 c1)"
      and "(p3, s3, c3) = (p2, s2, (1, take (p2 - p1) s1) # c2)"
      using run_Group_mem [of "(p3, s3, c3)" 1 ?G p1 s1 c1] by blast
    with run_Eol_mem [OF e] have q: "q = (p2, s2, (1, take (p2 - p1) s1) # c2)" by simp
    from word_group_results [OF g] q show "?P q" by simp
  qed
  have "\<forall>q\<in>set (run directive_re p s c). ?P q"
    unfolding directive_re_def
    by (intro run_Seq_all last)
  with assms show ?thesis by blast
qed

lemma match_directive_group:
  assumes "re_match directive_re line = Some m"
  shows "\<exists>x xs. group m 1 = x # xs \<and> isword x"
proof -
  from assms obtain p t c qs where r: "run directive_re 0 line [] = (p, t, c) # qs"
    and m: "m = (take p line, c)"
    by (auto simp: re_match_def split: list.splits)
  from r have "(p, t, c) \<in> set (run directive_re 0 line [])" by simp
  from directive_group_word [OF this] m show ?thesis by (auto simp: group_def)
qed

lemma read_token_keeps_token:
  "tok \<noteq> [] \<Longrightarrow> st \<noteq> LNone \<Longrightarrow> esc \<noteq> LNone \<Longrightarrow>
   read_token st tok quoted esc s = Inr (r, st', s') \<Longrightarrow> r \<noteq> None"
proof (induction st tok quoted esc s arbitrary: r st' s' rule: read_token.induct)
  case (3 tok quoted esc x xs)
  then show ?case by (auto split: if_splits)
next
  case (5 q tok quoted esc x xs)
  then show ?case by (auto split: if_splits)
next
  case (7 e tok quoted esc x xs)
  then show ?case by (cases esc) (auto split: if_splits)
next
  case (9 tok quoted esc x xs)
  then show ?case by (auto split: if_splits)
qed (auto split: if_splits)

lemma isword_plain:
  "isword x \<Longrightarrow> x \<notin> set shlex_whitespace \<and> x \<notin> set shlex_quotes \<and> x \<notin> set shlex_escape"
  by (auto simp: isword_def shlex_whitespace_def shlex_quotes_def shlex_escape_def)

lemma shlex_split_word_nonempty:
  assumes "isword x" and "shlex_split (x # xs) = Inr ts"
  shows "ts \<noteq> []"
proof -
  from isword_plain [OF assms(1)]
  have rd: "read_token LSpace [] False LSpace (x # xs) = read_token LWord [x] False LSpace xs"
    by simp
  show ?thesis
  proof (cases "read_token LWord [x] False LSpace xs")
    case (Inl e)
    with assms(2) rd show ?thesis
      unfolding shlex_split_def by (subst (asm) tokens.simps) (simp del: tokens.simps read_token.simps)
  next
    case (Inr res)
    obtain r st' s' where res: "res = (r, st', s')" by (cases res) auto
    with Inr have "r \<noteq> None" by (intro read_token_keeps_token [of "[x]" LWord LSpace False xs r st' s']) simp_all
    then obtain t where "r = Some t" by auto
    with assms(2) rd Inr res show ?thesis
      unfolding shlex_split_def
      by (subst (asm) tokens.simps) (auto simp del: tokens.simps read_token.simps split: sum.splits)
  qed
qed

lemma parse_lines_args_nonempty:
  "(lineno, args) \<in> set (fst (parse_lines ls)) \<Longrightarrow> args \<noteq> []"
proof (induction ls rule: parse_lines.induct)
  case 1
  then show ?case by simp
next
  case (2 l line rest)
  show ?case
  proof (cases "re_match directive_re line")
    case None
    with 2 show ?thesis by simp
  next
    case (Some m)
    from match_directive_group [OF Some] obtain x xs where g: "group m 1 = x # xs" and x: "isword x"
      by blast
    show ?thesis
    proof (cases "shlex_split (group m 1)")
      case (Inl e)
      with Some "2.prems" show ?thesis by simp
    next
      case (Inr ts)
      with g x have ts: "ts \<noteq> []" by (auto dest: shlex_split_word_nonempty)
      from "2.prems" Some Inr have "(lineno, args) = (l, ts) \<or> (lineno, args) \<in> set (fst (parse_lines rest))"
        by (auto split: prod.splits)
      with ts "2.IH"(2) [OF Some Inr] show ?thesis by auto
    qed
  qed
qed

text \<open>
  C8. The text of group 1 of a line that matches the directive pattern starts with a word
  character, so \<^verbatim>\<open>shlex.split\<close>, where it returns, returns at least one token; every
  directive that \<open>parse_directives\<close> yields has a first token for the dispatch to read.
\<close>
theorem directive_args_nonempty:
  "(re_match directive_re line = Some m \<longrightarrow>
      (\<exists>x xs. group m 1 = x # xs \<and> isword x)
      \<and> (\<forall>args. shlex_split (group m 1) = Inr args \<longrightarrow> args \<noteq> []))
   \<and> (\<forall>d\<in>set (fst (parse_directives header)). snd d \<noteq> [])"
proof (intro conjI impI allI ballI)
  assume m: "re_match directive_re line = Some m"
  from match_directive_group [OF m] show g: "\<exists>x xs. group m 1 = x # xs \<and> isword x" .
  fix args assume "shlex_split (group m 1) = Inr args"
  with g show "args \<noteq> []" by (auto dest: shlex_split_word_nonempty)
next
  fix d assume "d \<in> set (fst (parse_directives header))"
  then have "(fst d, snd d) \<in> set (fst (parse_lines (enumerate 0 (splitlines header))))"
    by (simp add: parse_directives_def)
  then show "snd d \<noteq> []" by (rule parse_lines_args_nonempty)
qed

subsection \<open>The loop over the directives\<close>

lemma append_assets_append:
  "append_assets self xs body =
     (case append_assets self xs [] of (exc, frs) \<Rightarrow> (exc, body @ frs))"
proof (induction xs arbitrary: body)
  case Nil
  then show ?case by simp
next
  case (Cons x xs)
  obtain a p where x: "x = (a, p)" by (cases x) auto
  show ?case
  proof (cases "get_asset_str self a p")
    case (Inl e)
    with x show ?thesis by simp
  next
    case (Inr t)
    have "append_assets self (x # xs) body = append_assets self xs (body @ [strip t])"
      using x Inr by simp
    also have "\<dots> = (case append_assets self xs [] of (exc, frs) \<Rightarrow> (exc, body @ [strip t] @ frs))"
      by (subst Cons.IH) (simp split: prod.splits)
    also have "\<dots> = (case append_assets self (x # xs) [] of (exc, frs) \<Rightarrow> (exc, body @ frs))"
      using x Inr by (simp, subst Cons.IH [of "[strip t]"]) (simp split: prod.splits)
    finally show ?thesis .
  qed
qed

lemma dispatch_append:
  "dispatch self l args body h =
     (case dispatch self l args [] h of (exc, frs, h') \<Rightarrow> (exc, body @ frs, h'))"
proof (cases args)
  case Nil
  then show ?thesis by (simp add: dispatch_def)
next
  case (Cons name rest)
  show ?thesis
    unfolding Cons dispatch_def process_require_directive_def process_require_self_directive_def
      process_require_directory_directive_def
    by (subst append_assets_append)
       (auto split: sum.splits error.splits prod.splits option.splits simp: Let_def)
qed

lemma dispatch_parts:
  "dispatch self l args body h =
     (fst (dispatch self l args [] False),
      body @ fst (snd (dispatch self l args [] False)),
      h \<or> args = [''require_self''])"
proof -
  have flag: "dispatch self l args [] h =
      (fst (dispatch self l args [] False), fst (snd (dispatch self l args [] False)),
       h \<or> args = [''require_self''])"
    by (cases args)
       (auto simp: dispatch_def process_require_self_directive_def split: prod.splits option.splits)
  show ?thesis by (subst dispatch_append) (simp add: flag)
qed

lemma directives_loop_fragments:
  assumes "\<forall>d\<in>set ds. fst (dispatch self (fst d) (snd d) [] False) \<in> {None, Some InvalidDirective}"
  shows "directives_loop self ds body h =
     Inr (body @ concat (map (\<lambda>d. fst (snd (dispatch self (fst d) (snd d) [] False))) ds),
          h \<or> (\<exists>d\<in>set ds. snd d = [''require_self'']))"
  using assms
proof (induction ds arbitrary: body h)
  case Nil
  then show ?case by simp
next
  case (Cons d ds)
  obtain l args where d: "d = (l, args)" by (cases d) auto
  from Cons.prems d have ok: "fst (dispatch self l args [] False) \<in> {None, Some InvalidDirective}"
    and rest: "\<forall>d\<in>set ds. fst (dispatch self (fst d) (snd d) [] False) \<in> {None, Some InvalidDirective}"
    by auto
  have "directives_loop self (d # ds) body h =
      directives_loop self ds (body @ fst (snd (dispatch self l args [] False)))
        (h \<or> args = [''require_self''])"
    using ok unfolding d directives_loop.simps by (subst dispatch_parts) auto
  also note Cons.IH [OF rest]
  finally show ?case using d by auto
qed

lemma directives_loop_returns:
  assumes "directives_loop self ds body h = Inr r"
  shows "\<forall>d\<in>set ds. fst (dispatch self (fst d) (snd d) [] False) \<in> {None, Some InvalidDirective}"
  using assms
proof (induction ds arbitrary: body h)
  case Nil
  then show ?case by simp
next
  case (Cons d ds)
  obtain l args where d: "d = (l, args)" by (cases d) auto
  let ?exc = "fst (dispatch self l args [] False)"
  let ?body = "body @ fst (snd (dispatch self l args [] False))"
  let ?h = "h \<or> args = [''require_self'']"
  have step: "directives_loop self (d # ds) body h =
      (case ?exc of None \<Rightarrow> directives_loop self ds ?body ?h
       | Some InvalidDirective \<Rightarrow> directives_loop self ds ?body ?h
       | Some e \<Rightarrow> Inl e)"
    unfolding d directives_loop.simps
    by (subst dispatch_parts) (simp split: option.splits error.splits)
  from Cons.prems step have ok: "?exc \<in> {None, Some InvalidDirective}"
    by (auto split: option.splits error.splits)
  with Cons.prems step have "directives_loop self ds ?body ?h = Inr r" by auto
  from Cons.IH [OF this] ok d show ?case by simp
qed

lemma process_value:
  assumes "source_header self \<noteq> []"
    and "parse_directives (source_header self) = (ds, None)"
    and "\<forall>d\<in>set ds. fst (dispatch self (fst d) (snd d) [] False) \<in> {None, Some InvalidDirective}"
  shows "process self =
     Inr (strip (join [NL, NL]
            (concat (map (\<lambda>d. fst (snd (dispatch self (fst d) (snd d) [] False))) ds)
             @ (if \<exists>d\<in>set ds. snd d = [''require_self''] then [] else [strip (source_body self)])))
          @ [NL])"
  using assms(1,2) directives_loop_fragments [OF assms(3), of "[]" False]
  by (simp add: process_def process_directives_def)

text \<open>
  When the header is not empty, \<open>process\<close> returns exactly when the generator ends without
  an exception and no directive raises anything but \<^verbatim>\<open>InvalidDirective\<close>; its result is
  then the fragments of the directives, in their order, and the body at the end unless a
  \<^verbatim>\<open>require_self\<close> without arguments has placed it.
\<close>

lemma process_fragments:
  assumes "source_header self \<noteq> []"
  shows "process self = Inr out \<longleftrightarrow>
     snd (parse_directives (source_header self)) = None
     \<and> (\<forall>d\<in>set (fst (parse_directives (source_header self))).
           fst (dispatch self (fst d) (snd d) [] False) \<in> {None, Some InvalidDirective})
     \<and> out = strip (join [NL, NL]
            (concat (map (\<lambda>d. fst (snd (dispatch self (fst d) (snd d) [] False)))
                         (fst (parse_directives (source_header self))))
             @ (if \<exists>d\<in>set (fst (parse_directives (source_header self))). snd d = [''require_self'']
                then [] else [strip (source_body self)]))) @ [NL]"
    (is "?L \<longleftrightarrow> ?E \<and> ?OK \<and> ?O")
proof
  assume L: ?L
  obtain ds exc where p: "parse_directives (source_header self) = (ds, exc)"
    by (cases "parse_directives (source_header self)") auto
  from L assms p obtain r where loop: "directives_loop self ds [] False = Inr r" and exc: "exc = None"
    by (auto simp: process_def process_directives_def split: sum.splits option.splits)
  from directives_loop_returns [OF loop] have ok: "\<forall>d\<in>set ds.
      fst (dispatch self (fst d) (snd d) [] False) \<in> {None, Some InvalidDirective}" .
  from p exc have p': "parse_directives (source_header self) = (ds, None)" by simp
  from process_value [OF assms p' ok] L have ?O unfolding p' fst_conv by simp
  moreover from p' ok have "?E \<and> ?OK" by simp
  ultimately show "?E \<and> ?OK \<and> ?O" by blast
next
  assume R: "?E \<and> ?OK \<and> ?O"
  then have p': "parse_directives (source_header self)
      = (fst (parse_directives (source_header self)), None)"
    by (cases "parse_directives (source_header self)") simp
  from R have ok: ?OK by blast
  from process_value [OF assms p' ok] R show ?L by simp
qed

lemma require_self_fragment:
  "dispatch self l [''require_self''] body h = (None, body @ [strip (source_body self)], True)"
  by (simp add: dispatch_def process_require_self_directive_def)

lemma require_self_with_args:
  "rest \<noteq> [] \<Longrightarrow> dispatch self l (''require_self'' # rest) body h = (Some InvalidDirective, body, h)"
  by (simp add: dispatch_def process_require_self_directive_def)

text \<open>
  C1. With a header that is not empty, \<open>process\<close> returns a text exactly when nothing but
  \<^verbatim>\<open>InvalidDirective\<close> is raised, and the text is then: the fragments the directives add, in
  the order of the directives, followed by the stripped body when no \<^verbatim>\<open>require_self\<close>
  directive has succeeded; joined with a blank line, stripped, with one newline appended.
  A \<^verbatim>\<open>require_self\<close> without arguments adds the stripped body where it stands, and the
  stripped text does not end in white space, so the newline appended is the only one.
\<close>
theorem fragments_in_directive_order:
  assumes "source_header self \<noteq> []"
  shows "(process self = Inr out \<longleftrightarrow>
       snd (parse_directives (source_header self)) = None
       \<and> (\<forall>d\<in>set (fst (parse_directives (source_header self))).
             fst (dispatch self (fst d) (snd d) [] False) \<in> {None, Some InvalidDirective})
       \<and> out = strip (join [NL, NL]
              (concat (map (\<lambda>d. fst (snd (dispatch self (fst d) (snd d) [] False)))
                           (fst (parse_directives (source_header self))))
               @ (if \<exists>d\<in>set (fst (parse_directives (source_header self))). snd d = [''require_self'']
                  then [] else [strip (source_body self)]))) @ [NL])
     \<and> (\<forall>l body h. dispatch self l [''require_self''] body h
           = (None, body @ [strip (source_body self)], True))
     \<and> (\<forall>frags. strip (join [NL, NL] frags) = []
           \<or> \<not> isspace (last (strip (join [NL, NL] frags))))"
  using process_fragments [OF assms, of out] strip_no_trailing_space
  by (simp add: require_self_fragment)

text \<open>
  C9. When every \<^verbatim>\<open>require_self\<close> directive of the header has arguments, each of them is
  rejected with \<^verbatim>\<open>InvalidDirective\<close> and adds nothing, the flag stays unset, and the
  stripped body is the last fragment of the output.
\<close>
theorem rejected_require_self_keeps_default_placement:
  assumes "source_header self \<noteq> []"
    and "\<forall>d\<in>set (fst (parse_directives (source_header self))).
           hd (snd d) = ''require_self'' \<longrightarrow> tl (snd d) \<noteq> []"
  shows "(process self = Inr out \<longleftrightarrow>
       snd (parse_directives (source_header self)) = None
       \<and> (\<forall>d\<in>set (fst (parse_directives (source_header self))).
             fst (dispatch self (fst d) (snd d) [] False) \<in> {None, Some InvalidDirective})
       \<and> out = strip (join [NL, NL]
              (concat (map (\<lambda>d. fst (snd (dispatch self (fst d) (snd d) [] False)))
                           (fst (parse_directives (source_header self))))
               @ [strip (source_body self)])) @ [NL])
     \<and> (\<forall>d\<in>set (fst (parse_directives (source_header self))).
           hd (snd d) = ''require_self'' \<longrightarrow>
           dispatch self (fst d) (snd d) [] False = (Some InvalidDirective, [], False))"
proof -
  let ?ds = "fst (parse_directives (source_header self))"
  from assms(2) have no: "\<not> (\<exists>d\<in>set ?ds. snd d = [''require_self''])" by fastforce
  have "dispatch self (fst d) (snd d) [] False = (Some InvalidDirective, [], False)"
    if "d \<in> set ?ds" "hd (snd d) = ''require_self''" for d
  proof -
    from that assms(2) have t: "tl (snd d) \<noteq> []" by blast
    then obtain name rest where "snd d = name # rest" by (cases "snd d") auto
    with that(2) t show ?thesis by (simp add: require_self_with_args)
  qed
  with process_fragments [OF assms(1), of out] no show ?thesis by simp
qed

text \<open>
  C2. A directive with a wrong number of arguments, an unknown name, or a \<^verbatim>\<open>require\<close> whose
  file is not found raises \<^verbatim>\<open>InvalidDirective\<close> and leaves the list of fragments and the
  flag as they were; the loop goes on, and its result is that of the loop without the
  directive.
\<close>
theorem failed_directive_is_skipped:
  assumes "name = ''require'' \<and> (length rest \<noteq> 1 \<or> find self (hd rest) = Inl FileNotFound)
         \<or> name = ''require_directory'' \<and> length rest \<noteq> 1
         \<or> name = ''require_self'' \<and> rest \<noteq> []
         \<or> name \<notin> {''require'', ''require_directory'', ''require_self''}"
  shows "dispatch self l (name # rest) body h = (Some InvalidDirective, body, h)
     \<and> directives_loop self (ds1 @ (l, name # rest) # ds2) body h
       = directives_loop self (ds1 @ ds2) body h"
proof -
  have skip: "dispatch self l (name # rest) b f = (Some InvalidDirective, b, f)" for b f
    using assms
    by (auto simp: dispatch_def process_require_directive_def process_require_directory_directive_def
          process_require_self_directive_def)
  have "directives_loop self (ds1 @ (l, name # rest) # ds2) b f = directives_loop self (ds1 @ ds2) b f"
    for b f
  proof (induction ds1 arbitrary: b f)
    case Nil
    show ?case by (simp add: skip)
  next
    case (Cons d ds1)
    obtain l' args' where d: "d = (l', args')" by (cases d) auto
    show ?case unfolding d by (simp add: Cons.IH split: prod.splits option.splits error.splits)
  qed
  with skip show ?thesis by simp
qed

subsection \<open>Directories and paths\<close>

lemma append_assets_all_rendered:
  assumes "\<forall>x\<in>set ys. get_asset_str self (fst x) (snd x) = Inr (txt x)"
  shows "append_assets self ys body = (None, body @ map (\<lambda>x. strip (txt x)) ys)"
  using assms
proof (induction ys arbitrary: body)
  case Nil
  then show ?case by simp
next
  case (Cons y ys)
  obtain a p where y: "y = (a, p)" by (cases y) auto
  with Cons.prems have "get_asset_str self a p = Inr (txt y)" by simp
  moreover from Cons.prems have "\<forall>x\<in>set ys. get_asset_str self (fst x) (snd x) = Inr (txt x)" by simp
  ultimately show ?case using y by (simp add: Cons.IH)
qed

text \<open>
  C6. \<^verbatim>\<open>require_directory\<close> with one argument appends the stripped texts of the assets the
  environment lists, in ascending order of their paths: the list appended is a permutation
  of the listing, sorted by path, and when the paths are distinct it is the same for every
  order in which the environment lists the same assets.
\<close>
theorem directory_assets_sorted_by_path:
  assumes "env_list (env self) (get_relative_path self arg True) (suffix (attributes self)) = Inr xs"
    and "\<forall>x\<in>set xs. get_asset_str self (fst x) (snd x) = Inr (txt x)"
  shows "\<exists>ys. mset ys = mset xs
      \<and> sorted (map (\<lambda>x. path (fst x)) ys)
      \<and> process_require_directory_directive self [arg] lineno body
          = (None, body @ map (\<lambda>x. strip (txt x)) ys)
      \<and> (\<forall>xs'. mset xs' = mset xs \<longrightarrow> inj_on (\<lambda>x. path (fst x)) (set xs) \<longrightarrow>
            sort_key (\<lambda>x. path (fst x)) xs' = ys)"
proof (intro exI [of _ "sort_key (\<lambda>x. path (fst x)) xs"] conjI allI impI)
  show "mset (sort_key (\<lambda>x. path (fst x)) xs) = mset xs" by simp
  show "sorted (map (\<lambda>x. path (fst x)) (sort_key (\<lambda>x. path (fst x)) xs))" by simp
  from assms(2) have "\<forall>x\<in>set (sort_key (\<lambda>x. path (fst x)) xs).
      get_asset_str self (fst x) (snd x) = Inr (txt x)" by simp
  from append_assets_all_rendered [OF this] assms(1)
  show "process_require_directory_directive self [arg] lineno body
      = (None, body @ map (\<lambda>x. strip (txt x)) (sort_key (\<lambda>x. path (fst x)) xs))"
    by (simp add: process_require_directory_directive_def)
next
  fix xs' assume m: "mset xs' = mset xs" and inj: "inj_on (\<lambda>x. path (fst x)) (set xs)"
  from m have "set xs' = set xs" by (rule mset_eq_setD)
  with inj have inj': "inj_on (\<lambda>x. path (fst x)) (set xs')" by simp
  show "sort_key (\<lambda>x. path (fst x)) xs' = sort_key (\<lambda>x. path (fst x)) xs"
    by (rule sort_key_inj_key_eq [OF _ inj']) (simp_all add: m)
qed

text \<open>
  C7. A path argument is joined to the directory of the asset's own path and normalised;
  \<open>find\<close> (\<^verbatim>\<open>require\<close>) looks up that path with the asset's extensions appended,
  \<^verbatim>\<open>require_directory\<close> lists that path as it is.
\<close>
theorem relative_path_resolution:
  "get_relative_path self arg True = normpath (path_join (dirname (path (attributes self))) arg)
   \<and> get_relative_path self arg False
       = normpath (path_join (dirname (path (attributes self))) arg)
         @ concat (extensions (attributes self))
   \<and> find self arg
       = env_find (env self) (normpath (path_join (dirname (path (attributes self))) arg)
                              @ concat (extensions (attributes self)))
   \<and> process_require_directory_directive self [arg] lineno body
       = (case env_list (env self) (normpath (path_join (dirname (path (attributes self))) arg))
                 (suffix (attributes self)) of
            Inl e \<Rightarrow> (Some e, body)
          | Inr list \<Rightarrow> append_assets self (sort_key (\<lambda>x. path (fst x)) list) body)"
  by (simp add: get_relative_path_def find_def process_require_directory_directive_def Let_def)

subsection \<open>An open quotation\<close>

lemma open_quote_header:
  "re_match header_re (''//= require '' @ [SQ] @ ''foo'' @ [NL] @ ''body'')
     = Some (''//= require '' @ [SQ] @ ''foo'' @ [NL],
             [(1, ''//= require '' @ [SQ] @ ''foo'' @ [NL]), (2, ''//= require '' @ [SQ] @ ''foo'' @ [NL]),
              (4, ''//= require '' @ [SQ] @ ''foo'' @ [NL])])"
  by code_simp

lemma open_quote_parse:
  "parse_directives (''//= require '' @ [SQ] @ ''foo'' @ [NL]) = ([], Some ValueError)"
  by code_simp

text \<open>
  C3. A directive line with an open quotation: the line matches the directive pattern,
  \<^verbatim>\<open>shlex.split\<close> raises \<^verbatim>\<open>ValueError\<close> inside the generator, outside the \<^verbatim>\<open>try\<close> of
  the loop, and \<open>process\<close> raises it.
\<close>
theorem open_quote_raises_ValueError:
  "process (init attrs e (''//= require '' @ [SQ] @ ''foo'' @ [NL] @ ''body'')) = Inl ValueError"
proof -
  have ne: "(''//= require '' @ [SQ] @ ''foo'' @ [NL] = []) = False" by simp
  show ?thesis
    by (simp only: init_def process_def process_directives_def open_quote_header open_quote_parse
          option.case processor.select_convs ne if_False prod.case directives_loop.simps
          sum.case fst_conv)
qed

section \<open>Evaluations at the sample inputs\<close>

theorem header_body_split_total_witness:
  "source_header (init sample_attrs sample_env (''// x'' @ [NL] @ ''body''))
     @ source_body (init sample_attrs sample_env (''// x'' @ [NL] @ ''body''))
   = ''// x'' @ [NL] @ ''body''
   \<and> source_header (init sample_attrs sample_env (''// x'' @ [NL] @ ''body'')) = ''// x'' @ [NL]"
  using header_body_split_total [of sample_attrs sample_env "''// x'' @ [NL] @ ''body''"]
  by code_simp

lemma sample_header_nonempty: "source_header sample_processor \<noteq> []"
  by code_simp

lemma sample_parse: "parse_directives (source_header sample_processor) = (sample_directives, None)"
  by code_simp

lemma sample_process:
  "process sample_processor
     = Inr (''<js/lib/a.js>'' @ [NL, NL] @ ''body();'' @ [NL, NL] @ ''<js/app/sub/a.js>'' @ [NL, NL]
            @ ''<js/app/sub/b.js>'' @ [NL, NL] @ ''<js/app/sub/c.js>'' @ [NL])"
  by code_simp

lemma sample_match:
  "re_match header_re sample_source
     = Some (sample_header, [(1, sample_header), (2, sample_header), (3, sample_header)])"
  by code_simp

lemma sample_sub: "re_sub header_re [] sample_source = [NL] @ ''body();'' @ [NL]"
  by code_simp

lemma sample_init: "init sample_attrs sample_env sample_source = sample_processor"
  by (simp only: init_def sample_match sample_sub option.case fst_conv sample_processor_def)

theorem fragments_in_directive_order_witness:
  "init sample_attrs sample_env sample_source = sample_processor
   \<and> source_header sample_processor \<noteq> []
   \<and> parse_directives (source_header sample_processor) = (sample_directives, None)
   \<and> process sample_processor
       = Inr (''<js/lib/a.js>'' @ [NL, NL] @ ''body();'' @ [NL, NL] @ ''<js/app/sub/a.js>'' @ [NL, NL]
              @ ''<js/app/sub/b.js>'' @ [NL, NL] @ ''<js/app/sub/c.js>'' @ [NL])"
  using fragments_in_directive_order [OF sample_header_nonempty]
    sample_init sample_header_nonempty sample_parse sample_process
  by blast

theorem failed_directive_is_skipped_witness:
  "dispatch sample_processor 2 [''require'', ''nope''] [] False = (Some InvalidDirective, [], False)
   \<and> directives_loop sample_processor
        [(1, [''require'', ''../lib/a'']), (2, [''require'', ''nope'']), (3, [''require_self''])] [] False
     = directives_loop sample_processor
        [(1, [''require'', ''../lib/a'']), (3, [''require_self''])] [] False
   \<and> directives_loop sample_processor
        [(1, [''require'', ''../lib/a'']), (3, [''require_self''])] [] False
     = Inr ([''<js/lib/a.js>'', ''body();''], True)"
proof -
  have h: "''require'' = ''require''
         \<and> (length [''nope''] \<noteq> 1 \<or> find sample_processor (hd [''nope'']) = Inl FileNotFound)
       \<or> ''require'' = ''require_directory'' \<and> length [''nope''] \<noteq> 1
       \<or> ''require'' = ''require_self'' \<and> [''nope''] \<noteq> []
       \<or> ''require'' \<notin> {''require'', ''require_directory'', ''require_self''}"
    by code_simp
  have r: "directives_loop sample_processor
        [(1, [''require'', ''../lib/a'']), (3, [''require_self''])] [] False
     = Inr ([''<js/lib/a.js>'', ''body();''], True)"
    by code_simp
  from failed_directive_is_skipped [OF h, of 2 "[]" False "[(1, [''require'', ''../lib/a''])]"
      "[(3, [''require_self''])]"] r
  show ?thesis by simp
qed

theorem open_quote_raises_ValueError_witness:
  "process (init sample_attrs sample_env (''//= require '' @ [SQ] @ ''foo'' @ [NL] @ ''body''))
     = Inl ValueError
   \<and> shlex_split (''require '' @ [SQ] @ ''foo'') = Inl ValueError"
proof -
  have "shlex_split (''require '' @ [SQ] @ ''foo'') = Inl ValueError" by code_simp
  with open_quote_raises_ValueError [of sample_attrs sample_env] show ?thesis by blast
qed

theorem no_directives_plain_body_witness:
  "process (sample_processor\<lparr>source_header := []\<rparr>) = Inr (''body();'' @ [NL])
   \<and> process (sample_processor\<lparr>source_header := ''// plain'' @ [NL] @ ''// words'' @ [NL]\<rparr>)
       = Inr (''body();'' @ [NL])"
proof -
  let ?A = "sample_processor\<lparr>source_header := []\<rparr>"
  let ?B = "sample_processor\<lparr>source_header := ''// plain'' @ [NL] @ ''// words'' @ [NL]\<rparr>"
  have a: "source_header ?A = []" by simp
  have b: "\<forall>line\<in>set (splitlines (source_header ?B)). re_match directive_re line = None"
    by code_simp
  have s: "strip (source_body ?A) = ''body();''" "strip (source_body ?B) = ''body();''"
    by code_simp+
  from no_directives_plain_body [of ?A] no_directives_plain_body [of ?B] a b
  have "process ?A = Inr (strip (source_body ?A) @ [NL])"
    and "process ?B = Inr (strip (source_body ?B) @ [NL])" by blast+
  then show ?thesis unfolding s by simp
qed

theorem directory_assets_sorted_by_path_witness:
  "process_require_directory_directive sample_processor [''sub''] 4 []
     = (None, [''<js/app/sub/a.js>'', ''<js/app/sub/b.js>'', ''<js/app/sub/c.js>''])"
proof -
  let ?xs = "map (\<lambda>n. (\<lparr>path = ''js/app/sub/'' @ n, extensions = [''.js''], suffix = [''.js'']\<rparr>,
                        ''/abs/js/app/sub/'' @ n)) [''b.js'', ''a.js'', ''c.js'']"
  let ?txt = "\<lambda>x :: located. ''<'' @ path (fst x) @ ''>'' @ [NL]"
  have h1: "env_list (env sample_processor) (get_relative_path sample_processor ''sub'' True)
      (suffix (attributes sample_processor)) = Inr ?xs"
    by code_simp
  have h2: "\<forall>x\<in>set ?xs. get_asset_str sample_processor (fst x) (snd x) = Inr (?txt x)"
    by code_simp
  have r: "process_require_directory_directive sample_processor [''sub''] 4 []
     = (None, [''<js/app/sub/a.js>'', ''<js/app/sub/b.js>'', ''<js/app/sub/c.js>''])"
    by code_simp
  from directory_assets_sorted_by_path [OF h1 h2, of 4 "[]"] r show ?thesis by blast
qed

theorem relative_path_resolution_witness:
  "get_relative_path sample_processor ''../lib/./a'' False = ''js/lib/a.js''
   \<and> get_relative_path sample_processor ''sub'' True = ''js/app/sub''"
proof -
  have "normpath (path_join (dirname (path (attributes sample_processor))) ''../lib/./a'')
          @ concat (extensions (attributes sample_processor)) = ''js/lib/a.js''"
    and "normpath (path_join (dirname (path (attributes sample_processor))) ''sub'') = ''js/app/sub''"
    by code_simp+
  with relative_path_resolution [of sample_processor "''../lib/./a''"]
    relative_path_resolution [of sample_processor "''sub''"]
  show ?thesis by simp
qed

theorem directive_args_nonempty_witness:
  "re_match directive_re ''*= require ../lib/a''
     = Some (''*= require ../lib/a'', [(1, ''require ../lib/a'')])
   \<and> shlex_split ''require ../lib/a'' = Inr [''require'', ''../lib/a'']"
proof -
  have m: "re_match directive_re ''*= require ../lib/a''
     = Some (''*= require ../lib/a'', [(1, ''require ../lib/a'')])"
    by code_simp
  have s: "shlex_split ''require ../lib/a'' = Inr [''require'', ''../lib/a'']" by code_simp
  from directive_args_nonempty [of "''*= require ../lib/a''"
      "(''*= require ../lib/a'', [(1, ''require ../lib/a'')])" "[]"] m s
  show ?thesis by blast
qed

theorem rejected_require_self_keeps_default_placement_witness:
  "process (sample_processor\<lparr>source_header := ''//= require_self now'' @ [NL]\<rparr>)
     = Inr (''body();'' @ [NL])"
proof -
  let ?S = "sample_processor\<lparr>source_header := ''//= require_self now'' @ [NL]\<rparr>"
  have h1: "source_header ?S \<noteq> []" by simp
  have h2: "\<forall>d\<in>set (fst (parse_directives (source_header ?S))).
      hd (snd d) = ''require_self'' \<longrightarrow> tl (snd d) \<noteq> []"
    by code_simp
  have r: "process ?S = Inr (''body();'' @ [NL])" by code_simp
  from rejected_require_self_keeps_default_placement [OF h1 h2] r show ?thesis by blast
qed

theorem hash_comments_give_no_header_witness:
  "source_header (init sample_attrs sample_env (''  #= require ../lib/a'' @ [NL] @ ''body();'')) = []
   \<and> process (init sample_attrs sample_env (''  #= require ../lib/a'' @ [NL] @ ''body();''))
       = Inr (''#= require ../lib/a'' @ [NL] @ ''body();'' @ [NL])
   \<and> re_match directive_re ''#= require ../lib/a''
       = Some (''#= require ../lib/a'', [(1, ''require ../lib/a'')])"
proof -
  have h: "\<forall>x\<in>set ''  ''. isspace x" by code_simp
  have s: "strip (''  #= require ../lib/a'' @ [NL] @ ''body();'')
      = ''#= require ../lib/a'' @ [NL] @ ''body();''"
    by code_simp
  have m: "re_match directive_re ''#= require ../lib/a''
       = Some (''#= require ../lib/a'', [(1, ''require ../lib/a'')])"
    by code_simp
  from hash_comments_give_no_header [OF h, of sample_attrs sample_env
      "''= require ../lib/a'' @ [NL] @ ''body();''"] s m
  show ?thesis by simp
qed

end
